theory Spec2Isabelle
  imports Main
begin

section \<open>The CSS selector builder of \<^verbatim>\<open>05-objects-tasks.js\<close>\<close>

text \<open>
  The builder \<^verbatim>\<open>cssSelectorBuilder\<close> creates two kinds of objects: selector objects
  (instances of the class returned by \<^verbatim>\<open>SelectorClassConstructor\<close>) and combinator
  objects (instances of the class returned by \<^verbatim>\<open>CombineClassConstructor\<close>). Selector
  objects are mutated in place by their six append methods, and all of them share the one
  array \<^verbatim>\<open>cssSelectorBuilder.validArr\<close>. The model therefore passes an explicit state:
  the shared array and a store of objects, addressed by their position in the store.
\<close>

subsection \<open>Data\<close>

text \<open>
  The six method names \<^verbatim>\<open>'element'\<close>, \<^verbatim>\<open>'id'\<close>, \<^verbatim>\<open>'class'\<close>, \<^verbatim>\<open>'attr'\<close>,
  \<^verbatim>\<open>'pseudoClass'\<close>, \<^verbatim>\<open>'pseudoElement'\<close>: the only strings that are ever pushed to
  \<^verbatim>\<open>validArr\<close> or stored in \<^verbatim>\<open>this.method\<close>.
\<close>

datatype kind = ElementK | IdK | ClassK | AttrK | PseudoClassK | PseudoElementK

text \<open>
  What a call can throw. The first two are the two \<^verbatim>\<open>new Error(...)\<close> of
  \<^verbatim>\<open>validArrCheck\<close>, told apart by their messages ("Element, id and pseudo-element should
  not occur more then one time inside the selector" and "Selector parts should be arranged
  in the following order: ..."). \<open>TypeError\<close> is what JavaScript throws when a method is
  called on, or a property is read from, something that is not such an object.
\<close>

datatype error = DuplicateSingleton | OutOfOrder | TypeError

record selectorObj =
  method_name :: kind
  val :: string
  classResStr :: string

record combineObj =
  selector1 :: nat
  combinator :: string
  selector2 :: nat
  combResStr :: string

datatype obj = Sel selectorObj | Comb combineObj

record state =
  validArr :: "kind list"
  heap :: "obj list"

text \<open>The state when the module has been loaded: \<^verbatim>\<open>validArr: []\<close> and no object.\<close>

definition init :: state where
  "init = \<lparr>validArr = [], heap = []\<rparr>"

definition lookup :: "obj list \<Rightarrow> nat \<Rightarrow> obj option" where
  "lookup h a = (if a < length h then Some (h ! a) else None)"

text \<open>A property read yields a string or \<^verbatim>\<open>undefined\<close>.\<close>

datatype jsval = Undefined | Str string

fun truthy :: "jsval \<Rightarrow> bool" where
  "truthy Undefined = False"
| "truthy (Str s) = (s \<noteq> [])"

text \<open>What \<^verbatim>\<open>+=\<close> on a string appends for a value.\<close>

fun toStr :: "jsval \<Rightarrow> string" where
  "toStr Undefined = ''undefined''"
| "toStr (Str s) = s"

fun get_classResStr :: "obj \<Rightarrow> jsval" where
  "get_classResStr (Sel x) = Str (classResStr x)"
| "get_classResStr (Comb c) = Undefined"

fun get_combResStr :: "obj \<Rightarrow> jsval" where
  "get_combResStr (Sel x) = Undefined"
| "get_combResStr (Comb c) = Str (combResStr c)"

subsection \<open>Array.prototype.indexOf, lastIndexOf and forEach\<close>

text \<open>Both searches return \<open>-1\<close> when the element does not occur.\<close>

fun indexOf :: "'a list \<Rightarrow> 'a \<Rightarrow> int" where
  "indexOf [] x = -1"
| "indexOf (y # ys) x =
     (if y = x then 0
      else (let i = indexOf ys x in if i = -1 then -1 else i + 1))"

fun lastIndexOf :: "'a list \<Rightarrow> 'a \<Rightarrow> int" where
  "lastIndexOf [] x = -1"
| "lastIndexOf (y # ys) x =
     (let i = lastIndexOf ys x in
      if i \<noteq> -1 then i + 1 else if y = x then 0 else -1)"

text \<open>
  \<^verbatim>\<open>forEach\<close> with a callback that may throw: the first exception ends the loop and
  is what the loop throws.
\<close>

fun forEach :: "('a \<Rightarrow> error option) \<Rightarrow> 'a list \<Rightarrow> error option" where
  "forEach f [] = None"
| "forEach f (x # xs) = (case f x of Some e \<Rightarrow> Some e | None \<Rightarrow> forEach f xs)"

subsection \<open>The selector class\<close>

definition sampleOccur :: "kind list" where
  "sampleOccur = [ElementK, IdK, PseudoElementK]"

definition sampleOrder :: "kind list" where
  "sampleOrder = [ElementK, IdK, ClassK, AttrK, PseudoClassK, PseudoElementK]"

text \<open>\<^verbatim>\<open>validArrCheck(arr)\<close>: \<open>None\<close> when it returns, \<open>Some e\<close> when it throws.\<close>

definition validArrCheck :: "kind list \<Rightarrow> error option" where
  "validArrCheck arr =
     (case forEach (\<lambda>item.
              if indexOf arr item \<noteq> lastIndexOf arr item
              then Some DuplicateSingleton else None) sampleOccur of
        Some e \<Rightarrow> Some e
      | None \<Rightarrow>
          forEach (\<lambda>idx.
              forEach (\<lambda>sliceEl.
                  if indexOf arr sliceEl \<noteq> -1
                     \<and> indexOf arr (sampleOrder ! idx) > indexOf arr sliceEl
                  then Some OutOfOrder else None) (drop idx sampleOrder))
            [0..<length sampleOrder])"

text \<open>The three statements that every append method consists of.\<close>

definition appendStr :: "nat \<Rightarrow> string \<Rightarrow> state \<Rightarrow> state" where
  \<comment> \<open>\<^verbatim>\<open>this.classResStr += t\<close>\<close>
  "appendStr this t s =
     (case lookup (heap s) this of
        Some (Sel x) \<Rightarrow>
          s\<lparr>heap := (heap s)[this := Sel (x\<lparr>classResStr := classResStr x @ t\<rparr>)]\<rparr>
      | _ \<Rightarrow> s)"

definition push :: "kind \<Rightarrow> state \<Rightarrow> state" where
  \<comment> \<open>\<^verbatim>\<open>cssSelectorBuilder.validArr.push(k)\<close>\<close>
  "push k s = s\<lparr>validArr := validArr s @ [k]\<rparr>"

definition checkReturn :: "nat \<Rightarrow> state \<Rightarrow> (error + nat) \<times> state" where
  \<comment> \<open>\<^verbatim>\<open>this.validArrCheck(cssSelectorBuilder.validArr); return this;\<close>\<close>
  "checkReturn this s =
     (case validArrCheck (validArr s) of
        Some e \<Rightarrow> (Inl e, s)
      | None \<Rightarrow> (Inr this, s))"

definition isSelector :: "state \<Rightarrow> nat \<Rightarrow> bool" where
  "isSelector s a = (case lookup (heap s) a of Some (Sel x) \<Rightarrow> True | _ \<Rightarrow> False)"

text \<open>
  The six append methods. Each takes the payload, the address of \<^verbatim>\<open>this\<close> and the
  state, and gives back what the call returns or throws together with the state it leaves:
  the two updates are made before the check, so they are in the state also when the check
  throws. Only a selector object has these methods.
\<close>

definition sel_element :: "string \<Rightarrow> nat \<Rightarrow> state \<Rightarrow> (error + nat) \<times> state" where
  "sel_element str this s =
     (if isSelector s this
      then checkReturn this (push ElementK (appendStr this str s))
      else (Inl TypeError, s))"

definition sel_id :: "string \<Rightarrow> nat \<Rightarrow> state \<Rightarrow> (error + nat) \<times> state" where
  "sel_id str this s =
     (if isSelector s this
      then checkReturn this (push IdK (appendStr this (''#'' @ str) s))
      else (Inl TypeError, s))"

definition sel_class :: "string \<Rightarrow> nat \<Rightarrow> state \<Rightarrow> (error + nat) \<times> state" where
  "sel_class str this s =
     (if isSelector s this
      then checkReturn this (push ClassK (appendStr this (''.'' @ str) s))
      else (Inl TypeError, s))"

definition sel_attr :: "string \<Rightarrow> nat \<Rightarrow> state \<Rightarrow> (error + nat) \<times> state" where
  "sel_attr str this s =
     (if isSelector s this
      then checkReturn this (push AttrK (appendStr this (''['' @ str @ '']'') s))
      else (Inl TypeError, s))"

definition sel_pseudoClass :: "string \<Rightarrow> nat \<Rightarrow> state \<Rightarrow> (error + nat) \<times> state" where
  "sel_pseudoClass str this s =
     (if isSelector s this
      then checkReturn this (push PseudoClassK (appendStr this ('':'' @ str) s))
      else (Inl TypeError, s))"

definition sel_pseudoElement :: "string \<Rightarrow> nat \<Rightarrow> state \<Rightarrow> (error + nat) \<times> state" where
  "sel_pseudoElement str this s =
     (if isSelector s this
      then checkReturn this (push PseudoElementK (appendStr this (''::'' @ str) s))
      else (Inl TypeError, s))"

text \<open>\<^verbatim>\<open>obj[m](v)\<close>: the method that the name \<open>m\<close> selects.\<close>

fun invoke :: "kind \<Rightarrow> string \<Rightarrow> nat \<Rightarrow> state \<Rightarrow> (error + nat) \<times> state" where
  "invoke ElementK = sel_element"
| "invoke IdK = sel_id"
| "invoke ClassK = sel_class"
| "invoke AttrK = sel_attr"
| "invoke PseudoClassK = sel_pseudoClass"
| "invoke PseudoElementK = sel_pseudoElement"

text \<open>
  \<^verbatim>\<open>new (SelectorClassConstructor(m, v))()\<close>: the constructor sets the fields of the new
  object, empties the shared array and calls \<^verbatim>\<open>this[this.method](this.value)\<close>.
\<close>

definition newSelector :: "kind \<Rightarrow> string \<Rightarrow> state \<Rightarrow> (error + nat) \<times> state" where
  "newSelector m v s =
     (let this = length (heap s);
          s1 = s\<lparr>heap := heap s @ [Sel \<lparr>method_name = m, val = v, classResStr = ''''\<rparr>]\<rparr>;
          s2 = s1\<lparr>validArr := []\<rparr>
      in invoke m v this s2)"

subsection \<open>The combinator class\<close>

text \<open>
  One operand of \<^verbatim>\<open>combine\<close>: \<^verbatim>\<open>if (sel.classResStr) { this.combResStr +=
  sel.classResStr; } else { this.combResStr += sel.combResStr; }\<close>.
\<close>

definition operandStr :: "obj \<Rightarrow> string" where
  "operandStr x =
     (if truthy (get_classResStr x) then toStr (get_classResStr x)
      else toStr (get_combResStr x))"

definition appendComb :: "nat \<Rightarrow> string \<Rightarrow> state \<Rightarrow> state" where
  \<comment> \<open>\<^verbatim>\<open>this.combResStr += t\<close>\<close>
  "appendComb this t s =
     (case lookup (heap s) this of
        Some (Comb c) \<Rightarrow>
          s\<lparr>heap := (heap s)[this := Comb (c\<lparr>combResStr := combResStr c @ t\<rparr>)]\<rparr>
      | _ \<Rightarrow> s)"

text \<open>
  The method \<^verbatim>\<open>combine(sel1, comb, sel2)\<close> of a combinator object. Reading a property
  of an operand that is no object is a \<open>TypeError\<close>.
\<close>

definition comb_combine :: "nat \<Rightarrow> string \<Rightarrow> nat \<Rightarrow> nat \<Rightarrow> state \<Rightarrow> (error + nat) \<times> state" where
  "comb_combine sel1 comb sel2 this s =
     (case lookup (heap s) sel1 of
        None \<Rightarrow> (Inl TypeError, s)
      | Some o1 \<Rightarrow>
          (let s1 = appendComb this (operandStr o1) s;
               s2 = appendComb this ('' '' @ comb @ '' '') s1
           in case lookup (heap s2) sel2 of
                None \<Rightarrow> (Inl TypeError, s2)
              | Some o2 \<Rightarrow> (Inr this, appendComb this (operandStr o2) s2)))"

text \<open>
  \<^verbatim>\<open>new (CombineClassConstructor(selector1, combinator, selector2))()\<close>. The operands
  are objects that exist when the call is made, so they are addresses of the store as it
  is before the new object is added; for any other address, which no caller can hold, the
  model answers as JavaScript does for an operand that is \<^verbatim>\<open>undefined\<close>.
\<close>

definition newCombine :: "nat \<Rightarrow> string \<Rightarrow> nat \<Rightarrow> state \<Rightarrow> (error + nat) \<times> state" where
  "newCombine sel1 comb sel2 s =
     (if sel1 < length (heap s) \<and> sel2 < length (heap s) then
        (let this = length (heap s);
             s1 = s\<lparr>heap := heap s @
                    [Comb \<lparr>selector1 = sel1, combinator = comb, selector2 = sel2,
                           combResStr = ''''\<rparr>]\<rparr>
         in comb_combine sel1 comb sel2 this s1)
      else (Inl TypeError, s))"

text \<open>
  \<^verbatim>\<open>stringify()\<close> of either class: a selector object returns its \<^verbatim>\<open>classResStr\<close>, a
  combinator object its \<^verbatim>\<open>combResStr\<close>.
\<close>

definition stringify :: "nat \<Rightarrow> state \<Rightarrow> error + string" where
  "stringify a s =
     (case lookup (heap s) a of
        Some (Sel x) \<Rightarrow> Inr (classResStr x)
      | Some (Comb c) \<Rightarrow> Inr (combResStr c)
      | None \<Rightarrow> Inl TypeError)"

subsection \<open>The facade\<close>

definition builder_element :: "string \<Rightarrow> state \<Rightarrow> (error + nat) \<times> state" where
  "builder_element v = newSelector ElementK v"

definition builder_id :: "string \<Rightarrow> state \<Rightarrow> (error + nat) \<times> state" where
  "builder_id v = newSelector IdK v"

definition builder_class :: "string \<Rightarrow> state \<Rightarrow> (error + nat) \<times> state" where
  "builder_class v = newSelector ClassK v"

definition builder_attr :: "string \<Rightarrow> state \<Rightarrow> (error + nat) \<times> state" where
  "builder_attr v = newSelector AttrK v"

definition builder_pseudoClass :: "string \<Rightarrow> state \<Rightarrow> (error + nat) \<times> state" where
  "builder_pseudoClass v = newSelector PseudoClassK v"

definition builder_pseudoElement :: "string \<Rightarrow> state \<Rightarrow> (error + nat) \<times> state" where
  "builder_pseudoElement v = newSelector PseudoElementK v"

definition builder_combine :: "nat \<Rightarrow> string \<Rightarrow> nat \<Rightarrow> state \<Rightarrow> (error + nat) \<times> state" where
  "builder_combine sel1 comb sel2 = newCombine sel1 comb sel2"

text \<open>The facade method that the name \<open>m\<close> selects.\<close>

fun builder :: "kind \<Rightarrow> string \<Rightarrow> state \<Rightarrow> (error + nat) \<times> state" where
  "builder ElementK = builder_element"
| "builder IdK = builder_id"
| "builder ClassK = builder_class"
| "builder AttrK = builder_attr"
| "builder PseudoClassK = builder_pseudoClass"
| "builder PseudoElementK = builder_pseudoElement"

subsection \<open>Chained calls\<close>

text \<open>
  \<^verbatim>\<open>x.m1(v1).m2(v2)...\<close>: each method is called on what the one before returned; the
  first exception ends the chain.
\<close>

fun chain :: "(kind \<times> string) list \<Rightarrow> nat \<Rightarrow> state \<Rightarrow> (error + nat) \<times> state" where
  "chain [] this s = (Inr this, s)"
| "chain ((k, v) # ps) this s =
     (case invoke k v this s of
        (Inl e, s') \<Rightarrow> (Inl e, s')
      | (Inr r, s') \<Rightarrow> chain ps r s')"

text \<open>\<^verbatim>\<open>cssSelectorBuilder.m0(v0).m1(v1)...\<close>: a facade call and a chain on its result.\<close>

definition build :: "kind \<times> string \<Rightarrow> (kind \<times> string) list \<Rightarrow> state \<Rightarrow> (error + nat) \<times> state" where
  "build p ps s =
     (case builder (fst p) (snd p) s of
        (Inl e, s') \<Rightarrow> (Inl e, s')
      | (Inr r, s') \<Rightarrow> chain ps r s')"

subsection \<open>Vocabulary of the properties\<close>

text \<open>
  The precedence of a kind: its position in \<open>sampleOrder\<close>, that is in
  element, id, class, attribute, pseudo-class, pseudo-element.
\<close>

fun rank :: "kind \<Rightarrow> nat" where
  "rank ElementK = 0"
| "rank IdK = 1"
| "rank ClassK = 2"
| "rank AttrK = 3"
| "rank PseudoClassK = 4"
| "rank PseudoElementK = 5"

text \<open>The text that the append method of a kind adds for the payload \<open>v\<close>.\<close>

fun render :: "kind \<Rightarrow> string \<Rightarrow> string" where
  "render ElementK v = v"
| "render IdK v = ''#'' @ v"
| "render ClassK v = ''.'' @ v"
| "render AttrK v = ''['' @ v @ '']''"
| "render PseudoClassK v = '':'' @ v"
| "render PseudoElementK v = ''::'' @ v"

text \<open>Element, id or pseudo-element occurs more than once in the sequence.\<close>

definition duplicated :: "kind list \<Rightarrow> bool" where
  "duplicated arr = (\<exists>k\<in>set sampleOccur. 1 < count_list arr k)"

text \<open>
  Some kind occurs in the sequence whose first occurrence comes before the first
  occurrence of a kind of lower precedence.
\<close>

definition misordered :: "kind list \<Rightarrow> bool" where
  "misordered arr = (\<exists>X Y. rank X < rank Y \<and> Y \<in> set arr \<and> indexOf arr Y < indexOf arr X)"

text \<open>
  The two constraints on the kinds of one selector: element, id and pseudo-element occur
  at most once each, and the kinds are non-decreasing in precedence.
\<close>

definition respectsConstraints :: "kind list \<Rightarrow> bool" where
  "respectsConstraints ks \<longleftrightarrow>
     (\<forall>k\<in>{ElementK, IdK, PseudoElementK}. count_list ks k \<le> 1) \<and> sorted (map rank ks)"

text \<open>The rendered pieces, concatenated in call order with no separator.\<close>

definition renderAll :: "(kind \<times> string) list \<Rightarrow> string" where
  "renderAll ps = concat (map (\<lambda>(k, v). render k v) ps)"

text \<open>
  Later calls of append methods on objects of the store, by a caller that catches what
  they throw: each entry is the address of the receiver, the method and the payload.
\<close>

fun appends :: "(nat \<times> kind \<times> string) list \<Rightarrow> state \<Rightarrow> state" where
  "appends [] s = s"
| "appends ((a, k, v) # cs) s = appends cs (snd (invoke k v a s))"

section \<open>Properties\<close>

subsection \<open>The searches and the check\<close>

lemma indexOf_ge: "- 1 \<le> indexOf xs x"
  by (induction xs) (auto simp: Let_def)

lemma indexOf_absent: "indexOf xs x = - 1 \<longleftrightarrow> x \<notin> set xs"
proof (induction xs)
  case Nil
  show ?case by simp
next
  case (Cons y ys)
  have "- 1 \<le> indexOf ys x" by (rule indexOf_ge)
  with Cons show ?case by (auto simp: Let_def)
qed

lemma indexOf_nth:
  "x \<in> set xs \<Longrightarrow> 0 \<le> indexOf xs x \<and> nat (indexOf xs x) < length xs \<and> xs ! nat (indexOf xs x) = x"
proof (induction xs)
  case Nil
  then show ?case by simp
next
  case (Cons y ys)
  show ?case
  proof (cases "y = x")
    case True
    then show ?thesis by simp
  next
    case False
    with Cons.prems have in_ys: "x \<in> set ys" by simp
    from Cons.IH [OF in_ys] have ih: "0 \<le> indexOf ys x" "nat (indexOf ys x) < length ys"
      "ys ! nat (indexOf ys x) = x" by simp_all
    from ih(1) have "nat (indexOf ys x + 1) = Suc (nat (indexOf ys x))" by simp
    with False ih show ?thesis by (simp add: Let_def)
  qed
qed

lemma lastIndexOf_ge: "- 1 \<le> lastIndexOf xs x"
  by (induction xs) (auto simp: Let_def)

lemma lastIndexOf_absent: "lastIndexOf xs x = - 1 \<longleftrightarrow> x \<notin> set xs"
proof (induction xs)
  case Nil
  show ?case by simp
next
  case (Cons y ys)
  have "- 1 \<le> lastIndexOf ys x" by (rule lastIndexOf_ge)
  with Cons show ?case by (auto simp: Let_def)
qed

lemma indexOf_eq_lastIndexOf: "indexOf xs x = lastIndexOf xs x \<longleftrightarrow> count_list xs x \<le> 1"
proof (induction xs)
  case Nil
  show ?case by simp
next
  case (Cons y ys)
  have ge: "- 1 \<le> lastIndexOf ys x" by (rule lastIndexOf_ge)
  show ?case
  proof (cases "y = x")
    case True
    have "count_list ys x = 0 \<longleftrightarrow> x \<notin> set ys" by (simp add: count_list_0_iff)
    with True ge lastIndexOf_absent [of ys x] show ?thesis by (auto simp: Let_def)
  next
    case False
    with Cons ge indexOf_absent [of ys x] lastIndexOf_absent [of ys x] show ?thesis
      by (auto simp: Let_def)
  qed
qed

lemma indexOf_append_in: "x \<in> set xs \<Longrightarrow> indexOf (xs @ ys) x = indexOf xs x"
proof (induction xs)
  case Nil
  then show ?case by simp
next
  case (Cons y ys')
  then show ?case using indexOf_absent [of ys' x] indexOf_absent [of "ys' @ ys" x]
    by (auto simp: Let_def)
qed

lemma forEach_if:
  "forEach (\<lambda>x. if P x then Some e else None) xs = (if \<exists>x\<in>set xs. P x then Some e else None)"
  by (induction xs) auto

lemma length_sampleOrder: "length sampleOrder = 6"
  by (simp add: sampleOrder_def)

lemma rank_less: "rank k < 6"
  by (cases k) simp_all

lemma nth_rank: "sampleOrder ! rank k = k"
  by (cases k) (simp_all add: sampleOrder_def)

lemma rank_nth: "n < 6 \<Longrightarrow> rank (sampleOrder ! n) = n"
proof -
  assume "n < 6"
  then have "n = 0 \<or> n = 1 \<or> n = 2 \<or> n = 3 \<or> n = 4 \<or> n = 5" by arith
  then show ?thesis by (auto simp: sampleOrder_def)
qed

lemma rank_inj: "rank a = rank b \<Longrightarrow> a = b"
  by (metis nth_rank)

lemma in_drop_sampleOrder: "Y \<in> set (drop idx sampleOrder) \<longleftrightarrow> idx \<le> rank Y"
proof
  assume "Y \<in> set (drop idx sampleOrder)"
  then obtain i where i: "i < length (drop idx sampleOrder)" "drop idx sampleOrder ! i = Y"
    by (auto simp: in_set_conv_nth)
  then have "idx + i < 6" by (simp add: length_sampleOrder)
  moreover from i have "Y = sampleOrder ! (idx + i)" by (simp add: length_sampleOrder)
  ultimately have "rank Y = idx + i" by (simp add: rank_nth)
  then show "idx \<le> rank Y" by simp
next
  assume le: "idx \<le> rank Y"
  have "rank Y - idx < length (drop idx sampleOrder)"
    using rank_less [of Y] le by (simp add: length_sampleOrder)
  moreover have "drop idx sampleOrder ! (rank Y - idx) = Y"
    using rank_less [of Y] le by (simp add: length_sampleOrder nth_rank)
  ultimately show "Y \<in> set (drop idx sampleOrder)"
    by (metis nth_mem)
qed

lemma singleton_loop:
  "forEach (\<lambda>item. if indexOf arr item \<noteq> lastIndexOf arr item
                    then Some DuplicateSingleton else None) sampleOccur
   = (if duplicated arr then Some DuplicateSingleton else None)"
  unfolding forEach_if duplicated_def
  by (simp add: indexOf_eq_lastIndexOf not_le)

lemma order_loop:
  "forEach (\<lambda>idx.
        forEach (\<lambda>sliceEl.
            if indexOf arr sliceEl \<noteq> -1
               \<and> indexOf arr (sampleOrder ! idx) > indexOf arr sliceEl
            then Some OutOfOrder else None) (drop idx sampleOrder))
      [0..<length sampleOrder]
   = (if misordered arr then Some OutOfOrder else None)"
proof -
  have "(\<exists>idx\<in>set [0..<length sampleOrder]. \<exists>sliceEl\<in>set (drop idx sampleOrder).
            indexOf arr sliceEl \<noteq> -1 \<and> indexOf arr (sampleOrder ! idx) > indexOf arr sliceEl)
        \<longleftrightarrow> misordered arr" (is "?L \<longleftrightarrow> _")
  proof
    assume ?L
    then obtain idx Y where h: "idx < 6" "idx \<le> rank Y" "Y \<in> set arr"
        "indexOf arr Y < indexOf arr (sampleOrder ! idx)"
      by (auto simp: length_sampleOrder in_drop_sampleOrder indexOf_absent)
    let ?X = "sampleOrder ! idx"
    from h(1) have rX: "rank ?X = idx" by (rule rank_nth)
    from h(4) have "?X \<noteq> Y" by auto
    then have "rank ?X \<noteq> rank Y" using rank_inj [of ?X Y] by blast
    with rX h(2) have "rank ?X < rank Y" by simp
    with h(3,4) show "misordered arr" unfolding misordered_def by blast
  next
    assume "misordered arr"
    then obtain X Y where h: "rank X < rank Y" "Y \<in> set arr" "indexOf arr Y < indexOf arr X"
      unfolding misordered_def by blast
    have "rank X \<in> set [0..<length sampleOrder]"
      using rank_less [of X] by (simp add: length_sampleOrder)
    moreover have "Y \<in> set (drop (rank X) sampleOrder)"
      using h(1) by (simp add: in_drop_sampleOrder)
    moreover have "indexOf arr Y \<noteq> -1 \<and> indexOf arr (sampleOrder ! rank X) > indexOf arr Y"
      using h(2,3) by (simp add: nth_rank indexOf_absent)
    ultimately show ?L by blast
  qed
  then show ?thesis
    unfolding forEach_if by simp
qed

lemma validArrCheck_char:
  "validArrCheck arr =
     (if duplicated arr then Some DuplicateSingleton
      else if misordered arr then Some OutOfOrder else None)"
  unfolding validArrCheck_def singleton_loop order_loop by simp

text \<open>
  So \<open>validArrCheck\<close> throws the first error when a singleton kind is duplicated,
  else the second when two first occurrences are out of order, and returns otherwise.
\<close>

subsection \<open>What one call does\<close>

lemma renderAll_simps [simp]:
  "renderAll [] = []" "renderAll ((k, v) # ps) = render k v @ renderAll ps"
  by (simp_all add: renderAll_def)

lemma invoke_generic:
  "invoke k v this s =
     (if isSelector s this
      then checkReturn this (push k (appendStr this (render k v) s))
      else (Inl TypeError, s))"
  by (cases k)
    (simp_all add: sel_element_def sel_id_def sel_class_def sel_attr_def
       sel_pseudoClass_def sel_pseudoElement_def)

lemma invoke_result:
  assumes "lookup (heap s) this = Some (Sel x)"
  shows "invoke k v this s =
     ((case validArrCheck (validArr s @ [k]) of Some e \<Rightarrow> Inl e | None \<Rightarrow> Inr this),
      s\<lparr>validArr := validArr s @ [k],
        heap := (heap s)[this := Sel (x\<lparr>classResStr := classResStr x @ render k v\<rparr>)]\<rparr>)"
  using assms
  by (simp add: invoke_generic isSelector_def checkReturn_def push_def appendStr_def
      split: option.splits)

lemma invoke_not_selector:
  "\<not> isSelector s this \<Longrightarrow> invoke k v this s = (Inl TypeError, s)"
  by (simp add: invoke_generic)

lemma lookup_update_same:
  "lookup h a = Some y \<Longrightarrow> lookup (h[a := z]) a = Some z"
  by (auto simp: lookup_def split: if_splits)

lemma lookup_update_other:
  "a \<noteq> b \<Longrightarrow> lookup (h[a := z]) b = lookup h b"
  by (simp add: lookup_def)

lemma not_duplicated_single: "\<not> duplicated [k]"
  by (simp add: duplicated_def)

lemma not_misordered_single: "\<not> misordered [k]"
proof
  assume "misordered [k]"
  then obtain X where "indexOf [k] k < indexOf [k] X" unfolding misordered_def by auto
  then show False by (simp split: if_splits)
qed

lemma validArrCheck_single: "validArrCheck [k] = None"
  by (simp add: validArrCheck_char not_duplicated_single not_misordered_single)

lemma newSelector_result:
  "newSelector k v s =
     (Inr (length (heap s)),
      \<lparr>validArr = [k],
       heap = heap s @ [Sel \<lparr>method_name = k, val = v, classResStr = render k v\<rparr>]\<rparr>)"
proof -
  let ?x = "\<lparr>method_name = k, val = v, classResStr = []\<rparr>"
  let ?s2 = "s\<lparr>heap := heap s @ [Sel ?x], validArr := []\<rparr>"
  have "lookup (heap ?s2) (length (heap s)) = Some (Sel ?x)"
    by (simp add: lookup_def)
  from invoke_result [OF this, of k v] show ?thesis
    by (simp add: newSelector_def Let_def validArrCheck_single)
qed

lemma builder_result:
  "builder k v s =
     (Inr (length (heap s)),
      \<lparr>validArr = [k],
       heap = heap s @ [Sel \<lparr>method_name = k, val = v, classResStr = render k v\<rparr>]\<rparr>)"
  by (cases k)
    (simp_all add: builder_element_def builder_id_def builder_class_def builder_attr_def
       builder_pseudoClass_def builder_pseudoElement_def newSelector_result)

lemma sorted_misordered:
  assumes "sorted (map rank arr)"
  shows "\<not> misordered arr"
proof
  assume "misordered arr"
  then obtain X Y where h: "rank X < rank Y" "Y \<in> set arr" "indexOf arr Y < indexOf arr X"
    unfolding misordered_def by blast
  from indexOf_nth [OF h(2)] have y: "0 \<le> indexOf arr Y" by simp
  with h(3) have "indexOf arr X \<noteq> - 1" by simp
  then have inX: "X \<in> set arr" by (simp add: indexOf_absent)
  let ?i = "nat (indexOf arr X)" and ?j = "nat (indexOf arr Y)"
  from indexOf_nth [OF inX] have x: "?i < length arr" "arr ! ?i = X" by simp_all
  from indexOf_nth [OF h(2)] have y': "arr ! ?j = Y" by simp
  from h(3) y have lt: "?j < ?i" by simp
  from lt x(1) have "?j \<le> ?i \<and> ?j < length arr" by linarith
  with x(1) have b: "?j \<le> ?i" "?i < length (map rank arr)" "?j < length arr"
    by simp_all
  from sorted_nth_mono [OF assms b(1,2)] b(3) x(1)
  have "rank (arr ! ?j) \<le> rank (arr ! ?i)" by simp
  with x y' have "rank Y \<le> rank X" by simp
  with h(1) show False by simp
qed

lemma respects_not_duplicated: "respectsConstraints ks \<Longrightarrow> \<not> duplicated ks"
  by (auto simp: respectsConstraints_def duplicated_def sampleOccur_def)

lemma respects_validArrCheck: "respectsConstraints ks \<Longrightarrow> validArrCheck ks = None"
  by (simp add: validArrCheck_char respects_not_duplicated sorted_misordered
      respectsConstraints_def)

lemma respects_prefix: "respectsConstraints (xs @ ys) \<Longrightarrow> respectsConstraints xs"
  by (auto simp: respectsConstraints_def sorted_append)

lemma chain_valid:
  assumes "lookup (heap s) this = Some (Sel x)"
      and "respectsConstraints (validArr s @ map fst ps)"
  shows "chain ps this s =
     (Inr this,
      s\<lparr>validArr := validArr s @ map fst ps,
        heap := (heap s)[this := Sel (x\<lparr>classResStr := classResStr x @ renderAll ps\<rparr>)]\<rparr>)"
  using assms
proof (induction ps arbitrary: s x)
  case Nil
  then have "(heap s)[this := Sel x] = heap s"
    by (auto simp: lookup_def list_update_same_conv split: if_splits)
  then show ?case by simp
next
  case (Cons p ps)
  obtain k v where p: "p = (k, v)" by (cases p)
  let ?x1 = "x\<lparr>classResStr := classResStr x @ render k v\<rparr>"
  let ?s1 = "s\<lparr>validArr := validArr s @ [k], heap := (heap s)[this := Sel ?x1]\<rparr>"
  from Cons.prems(2) p have "respectsConstraints ((validArr s @ [k]) @ map fst ps)" by simp
  then have ok: "validArrCheck (validArr s @ [k]) = None"
    using respects_prefix respects_validArrCheck by blast
  have step: "invoke k v this s = (Inr this, ?s1)"
    by (simp add: invoke_result [OF Cons.prems(1)] ok)
  have l1: "lookup (heap ?s1) this = Some (Sel ?x1)"
    using Cons.prems(1) by (simp add: lookup_update_same)
  have r1: "respectsConstraints (validArr ?s1 @ map fst ps)"
    using Cons.prems(2) p by simp
  from Cons.IH [OF l1 r1] step p show ?case by simp
qed

lemma chain_success:
  assumes "chain ps this s = (Inr r, s')"
      and "lookup (heap s) this = Some (Sel x)"
  shows "r = this \<and> validArr s' = validArr s @ map fst ps \<and>
         heap s' = (heap s)[this := Sel (x\<lparr>classResStr := classResStr x @ renderAll ps\<rparr>)]"
  using assms
proof (induction ps arbitrary: s x)
  case Nil
  then have "(heap s)[this := Sel x] = heap s"
    by (auto simp: lookup_def list_update_same_conv split: if_splits)
  with Nil show ?case by simp
next
  case (Cons p ps)
  obtain k v where p: "p = (k, v)" by (cases p)
  let ?x1 = "x\<lparr>classResStr := classResStr x @ render k v\<rparr>"
  let ?s1 = "s\<lparr>validArr := validArr s @ [k], heap := (heap s)[this := Sel ?x1]\<rparr>"
  from Cons.prems(1) p have ok: "validArrCheck (validArr s @ [k]) = None"
    and rest: "chain ps this ?s1 = (Inr r, s')"
    by (auto simp: invoke_result [OF Cons.prems(2)] split: option.splits)
  have l1: "lookup (heap ?s1) this = Some (Sel ?x1)"
    using Cons.prems(2) by (simp add: lookup_update_same)
  from Cons.IH [OF rest l1] p show ?case by simp
qed

lemma stringify_Sel: "lookup (heap s) a = Some (Sel x) \<Longrightarrow> stringify a s = Inr (classResStr x)"
  by (simp add: stringify_def)

lemma build_valid:
  assumes "respectsConstraints (map fst (p # ps))"
  shows "build p ps s =
     (Inr (length (heap s)),
      \<lparr>validArr = map fst (p # ps),
       heap = heap s @ [Sel \<lparr>method_name = fst p, val = snd p, classResStr = renderAll (p # ps)\<rparr>]\<rparr>)"
proof -
  obtain k v where p: "p = (k, v)" by (cases p)
  let ?x = "\<lparr>method_name = k, val = v, classResStr = render k v\<rparr>"
  let ?s0 = "\<lparr>validArr = [k], heap = heap s @ [Sel ?x]\<rparr>"
  have l: "lookup (heap ?s0) (length (heap s)) = Some (Sel ?x)" by (simp add: lookup_def)
  have r: "respectsConstraints (validArr ?s0 @ map fst ps)" using assms p by simp
  from chain_valid [OF l r] p show ?thesis
    by (simp add: build_def builder_result)
qed

lemma build_success:
  assumes "build p ps s = (Inr r, s1)"
  shows "r = length (heap s) \<and> validArr s1 = map fst (p # ps) \<and>
         heap s1 = heap s @ [Sel \<lparr>method_name = fst p, val = snd p, classResStr = renderAll (p # ps)\<rparr>]"
proof -
  obtain k v where p: "p = (k, v)" by (cases p)
  let ?x = "\<lparr>method_name = k, val = v, classResStr = render k v\<rparr>"
  let ?s0 = "\<lparr>validArr = [k], heap = heap s @ [Sel ?x]\<rparr>"
  have l: "lookup (heap ?s0) (length (heap s)) = Some (Sel ?x)" by (simp add: lookup_def)
  from assms p have c: "chain ps (length (heap s)) ?s0 = (Inr r, s1)"
    by (simp add: build_def builder_result)
  from chain_success [OF c l] p show ?thesis by simp
qed

subsection \<open>Serialization of a chain\<close>

text \<open>
  Claim C5. For every kind sequence that satisfies the singleton and ordering
  constraints, a facade call followed by chained appends raises nothing, and the
  selector it returns serializes to the concatenation, in call order and with no
  separator, of the rendered pieces (element \<open>v\<close>, id \<open>#v\<close>, class \<open>.v\<close>,
  attribute \<open>[v]\<close>, pseudo-class \<open>:v\<close>, pseudo-element \<open>::v\<close>).
\<close>

theorem build_serializes_rendered_pieces:
  assumes "respectsConstraints (map fst (p # ps))"
  shows "\<exists>s'. build p ps s = (Inr (length (heap s)), s') \<and>
              stringify (length (heap s)) s' = Inr (renderAll (p # ps))"
  by (simp add: build_valid [OF assms] stringify_def lookup_def)

text \<open>
  The chain \<^verbatim>\<open>id('main').class('container').class('editable')\<close> of the source's
  documentation.
\<close>

theorem build_serializes_rendered_pieces_witness:
  "respectsConstraints (map fst [(IdK, ''main''), (ClassK, ''container''), (ClassK, ''editable'')]) \<and>
   (\<exists>s'. build (IdK, ''main'') [(ClassK, ''container''), (ClassK, ''editable'')] init = (Inr 0, s') \<and>
         stringify 0 s' = Inr ''#main.container.editable'')"
proof -
  have h: "respectsConstraints
      (map fst [(IdK, ''main''), (ClassK, ''container''), (ClassK, ''editable'')])"
    by (simp add: respectsConstraints_def)
  from build_serializes_rendered_pieces [OF h, of init] h show ?thesis
    by (simp add: init_def)
qed

subsection \<open>A rejected append\<close>

text \<open>
  Claim C1, as amended. An append that raises a constraint violation is not rolled
  back: afterwards the selector serializes to its string before the call followed by
  the rendered rejected piece, and the recorded kind history \<open>validArr\<close> is the one
  before the call followed by the rejected kind.
\<close>

theorem failed_append_keeps_piece:
  assumes "invoke k v this s = (Inl e, s')" and "e \<noteq> TypeError"
  shows "\<exists>str. stringify this s = Inr str \<and> stringify this s' = Inr (str @ render k v) \<and>
               validArr s' = validArr s @ [k]"
proof (cases "isSelector s this")
  case False
  with assms show ?thesis by (simp add: invoke_not_selector)
next
  case True
  then obtain x where l: "lookup (heap s) this = Some (Sel x)"
    by (auto simp: isSelector_def split: option.splits obj.splits)
  from assms(1) have s': "s' = s\<lparr>validArr := validArr s @ [k],
        heap := (heap s)[this := Sel (x\<lparr>classResStr := classResStr x @ render k v\<rparr>)]\<rparr>"
    by (simp add: invoke_result [OF l])
  have "lookup (heap s') this = Some (Sel (x\<lparr>classResStr := classResStr x @ render k v\<rparr>))"
    using l by (simp add: s' lookup_update_same)
  then have "stringify this s' = Inr (classResStr x @ render k v)"
    by (simp add: stringify_def)
  moreover have "stringify this s = Inr (classResStr x)" using l by (rule stringify_Sel)
  moreover have "validArr s' = validArr s @ [k]" by (simp add: s')
  ultimately show ?thesis by simp
qed

text \<open>The call \<^verbatim>\<open>element('b')\<close> on the result of \<^verbatim>\<open>builder.element('a')\<close>.\<close>

theorem failed_append_keeps_piece_witness:
  "invoke ElementK ''b'' 0 (snd (builder_element ''a'' init)) =
     (Inl DuplicateSingleton,
      \<lparr>validArr = [ElementK, ElementK],
       heap = [Sel \<lparr>method_name = ElementK, val = ''a'', classResStr = ''ab''\<rparr>]\<rparr>) \<and>
   DuplicateSingleton \<noteq> TypeError \<and>
   (\<exists>str. stringify 0 (snd (builder_element ''a'' init)) = Inr str \<and>
      stringify 0 \<lparr>validArr = [ElementK, ElementK],
         heap = [Sel \<lparr>method_name = ElementK, val = ''a'', classResStr = ''ab''\<rparr>]\<rparr>
        = Inr (str @ render ElementK ''b'') \<and>
      [ElementK, ElementK] = validArr (snd (builder_element ''a'' init)) @ [ElementK])"
proof -
  have h: "invoke ElementK ''b'' 0 (snd (builder_element ''a'' init)) =
     (Inl DuplicateSingleton,
      \<lparr>validArr = [ElementK, ElementK],
       heap = [Sel \<lparr>method_name = ElementK, val = ''a'', classResStr = ''ab''\<rparr>]\<rparr>)"
    by code_simp
  have e: "DuplicateSingleton \<noteq> TypeError" by simp
  from failed_append_keeps_piece [OF h e] h show ?thesis by simp
qed

text \<open>
  Claim C1 as stated fails: \<^verbatim>\<open>builder.element('a')\<close> serializes to \<open>a\<close>; the call
  \<^verbatim>\<open>element('b')\<close> on it throws the duplicate error, and afterwards the selector
  serializes to \<open>ab\<close> and \<open>validArr\<close> holds the kind twice.
\<close>

theorem failed_append_not_rolled_back:
  "fst (sel_element ''b'' 0 (snd (builder_element ''a'' init))) = Inl DuplicateSingleton \<and>
   stringify 0 (snd (builder_element ''a'' init)) = Inr ''a'' \<and>
   stringify 0 (snd (sel_element ''b'' 0 (snd (builder_element ''a'' init)))) = Inr ''ab'' \<and>
   validArr (snd (builder_element ''a'' init)) = [ElementK] \<and>
   validArr (snd (sel_element ''b'' 0 (snd (builder_element ''a'' init)))) = [ElementK, ElementK]"
  by code_simp

subsection \<open>Combinator nodes\<close>

lemma operandStr_Sel:
  "operandStr (Sel x) = (if classResStr x = [] then ''undefined'' else classResStr x)"
  by (simp add: operandStr_def)

lemma operandStr_Comb: "operandStr (Comb c) = combResStr c"
  by (simp add: operandStr_def)

lemma newCombine_result:
  assumes "lookup (heap s) sel1 = Some o1" and "lookup (heap s) sel2 = Some o2"
  shows "newCombine sel1 comb sel2 s =
     (Inr (length (heap s)),
      s\<lparr>heap := heap s @
          [Comb \<lparr>selector1 = sel1, combinator = comb, selector2 = sel2,
                 combResStr = operandStr o1 @ '' '' @ comb @ '' '' @ operandStr o2\<rparr>]\<rparr>)"
proof -
  from assms have lt: "sel1 < length (heap s)" "sel2 < length (heap s)"
    and nth: "heap s ! sel1 = o1" "heap s ! sel2 = o2"
    by (auto simp: lookup_def split: if_splits)
  then show ?thesis
    by (simp add: newCombine_def comb_combine_def appendComb_def lookup_def Let_def nth_append)
qed

lemma newCombine_returns:
  assumes "newCombine sel1 comb sel2 s = (Inr n, s1)"
  shows "sel1 < length (heap s) \<and> sel2 < length (heap s)"
  using assms by (auto simp: newCombine_def split: if_splits)

lemma lookup_nth: "a < length h \<Longrightarrow> lookup h a = Some (h ! a)"
  by (simp add: lookup_def)

text \<open>
  Claim C8. \<open>combine\<close> never raises for two selector values that have been built
  (objects of the store, selector or combinator) and any combinator token: it
  validates nothing and returns the new node.
\<close>

theorem combine_never_raises:
  assumes "sel1 < length (heap s)" and "sel2 < length (heap s)"
  shows "fst (builder_combine sel1 comb sel2 s) = Inr (length (heap s))"
  by (simp add: builder_combine_def
      newCombine_result [OF lookup_nth [OF assms(1)] lookup_nth [OF assms(2)]])

text \<open>Two selectors and a token that is no CSS combinator.\<close>

theorem combine_never_raises_witness:
  "(0::nat) < length (heap (snd (builder_id ''x'' (snd (builder_element ''div'' init))))) \<and>
   (1::nat) < length (heap (snd (builder_id ''x'' (snd (builder_element ''div'' init))))) \<and>
   fst (builder_combine 0 ''] ::,#'' 1 (snd (builder_id ''x'' (snd (builder_element ''div'' init)))))
     = Inr 2"
proof -
  let ?s = "snd (builder_id ''x'' (snd (builder_element ''div'' init)))"
  have h: "(0::nat) < length (heap ?s)" "(1::nat) < length (heap ?s)" by code_simp+
  have n: "length (heap ?s) = 2" by code_simp
  from combine_never_raises [OF h, of "''] ::,#''"] h n show ?thesis by simp
qed

text \<open>
  Claim C9. The node's string is the text taken for the left operand, a space, the
  token, a space and the text taken for the right operand; for an operand that is a
  fragment selector whose serialized string is empty, the text taken is the literal
  \<open>undefined\<close>, since the operand's kind is decided by the truthiness of its
  \<open>classResStr\<close>.
\<close>

theorem combine_empty_fragment_operand:
  assumes "lookup (heap s) sel1 = Some o1" and "lookup (heap s) sel2 = Some o2"
  shows "(\<exists>s'. builder_combine sel1 comb sel2 s = (Inr (length (heap s)), s') \<and>
            stringify (length (heap s)) s'
              = Inr (operandStr o1 @ '' '' @ comb @ '' '' @ operandStr o2)) \<and>
         (isSelector s sel1 \<and> stringify sel1 s = Inr [] \<longrightarrow> operandStr o1 = ''undefined'') \<and>
         (isSelector s sel2 \<and> stringify sel2 s = Inr [] \<longrightarrow> operandStr o2 = ''undefined'')"
proof -
  have opnd: "operandStr ob = ''undefined''"
    if "lookup (heap s) a = Some ob" and "isSelector s a" and "stringify a s = Inr []" for a ob
    using that by (cases ob) (simp_all add: isSelector_def stringify_def operandStr_Sel)
  show ?thesis
    using opnd [OF assms(1)] opnd [OF assms(2)]
    by (simp add: builder_combine_def newCombine_result [OF assms] stringify_def lookup_def)
qed

text \<open>\<^verbatim>\<open>combine(element(''), '+', element('a'))\<close>.\<close>

theorem combine_empty_fragment_operand_witness:
  "lookup (heap (snd (builder_element ''a'' (snd (builder_element [] init))))) 0
     = Some (Sel \<lparr>method_name = ElementK, val = [], classResStr = []\<rparr>) \<and>
   lookup (heap (snd (builder_element ''a'' (snd (builder_element [] init))))) 1
     = Some (Sel \<lparr>method_name = ElementK, val = ''a'', classResStr = ''a''\<rparr>) \<and>
   isSelector (snd (builder_element ''a'' (snd (builder_element [] init)))) 0 \<and>
   stringify 0 (snd (builder_element ''a'' (snd (builder_element [] init)))) = Inr [] \<and>
   (\<exists>s'. builder_combine 0 ''+'' 1 (snd (builder_element ''a'' (snd (builder_element [] init))))
           = (Inr 2, s') \<and>
         stringify 2 s' = Inr ''undefined + a'')"
proof -
  let ?s = "snd (builder_element ''a'' (snd (builder_element [] init)))"
  have h1: "lookup (heap ?s) 0 = Some (Sel \<lparr>method_name = ElementK, val = [], classResStr = []\<rparr>)"
    by code_simp
  have h2: "lookup (heap ?s) 1
      = Some (Sel \<lparr>method_name = ElementK, val = ''a'', classResStr = ''a''\<rparr>)"
    by code_simp
  have h3: "isSelector ?s 0" by code_simp
  have h4: "stringify 0 ?s = Inr []" by code_simp
  have n: "length (heap ?s) = 2" by code_simp
  from combine_empty_fragment_operand [OF h1 h2, of "''+''"] h1 h2 h3 h4 n show ?thesis
    by (simp add: operandStr_Sel)
qed

text \<open>
  Claim C4 says that the node serializes to the serialization of the left operand, a
  space, the token, a space and the serialization of the right operand. The code
  departs from it where an operand is a fragment selector that serializes to the empty
  string: \<^verbatim>\<open>combine(element(''), '+', element('a'))\<close> serializes to
  \<open>undefined + a\<close>, not to \<open> + a\<close>.
\<close>

theorem combine_renders_empty_fragment_as_undefined:
  "stringify 0 (snd (builder_element ''a'' (snd (builder_element [] init)))) = Inr [] \<and>
   stringify 1 (snd (builder_element ''a'' (snd (builder_element [] init)))) = Inr ''a'' \<and>
   fst (builder_combine 0 ''+'' 1 (snd (builder_element ''a'' (snd (builder_element [] init)))))
     = Inr 2 \<and>
   stringify 2
     (snd (builder_combine 0 ''+'' 1 (snd (builder_element ''a'' (snd (builder_element [] init))))))
     = Inr ''undefined + a'' \<and>
   ''undefined + a'' \<noteq> [] @ '' '' @ ''+'' @ '' '' @ ''a''"
  by code_simp

text \<open>Where neither operand serializes to the empty string, the node is as the claim says.\<close>

lemma combine_stringify_nonempty:
  assumes "stringify sel1 s = Inr a" and "stringify sel2 s = Inr b"
      and "a \<noteq> []" and "b \<noteq> []"
  shows "\<exists>s'. builder_combine sel1 comb sel2 s = (Inr (length (heap s)), s') \<and>
           stringify (length (heap s)) s' = Inr (a @ '' '' @ comb @ '' '' @ b)"
proof -
  have opnd: "\<exists>ob. lookup (heap s) n = Some ob \<and> operandStr ob = t"
    if "stringify n s = Inr t" and "t \<noteq> []" for n t
    using that
    by (auto simp: stringify_def operandStr_Sel operandStr_Comb
        split: option.splits obj.splits)
  from opnd [OF assms(1,3)] obtain o1 where o1: "lookup (heap s) sel1 = Some o1" "operandStr o1 = a"
    by blast
  from opnd [OF assms(2,4)] obtain o2 where o2: "lookup (heap s) sel2 = Some o2" "operandStr o2 = b"
    by blast
  show ?thesis
    by (simp add: builder_combine_def newCombine_result [OF o1(1) o2(1)] o1(2) o2(2)
        stringify_def lookup_def)
qed

lemma invoke_keeps_Comb:
  assumes "lookup (heap s) n = Some (Comb c)"
  shows "lookup (heap (snd (invoke k v a s))) n = Some (Comb c)"
proof (cases "isSelector s a")
  case False
  with assms show ?thesis by (simp add: invoke_not_selector)
next
  case True
  then obtain x where l: "lookup (heap s) a = Some (Sel x)"
    by (auto simp: isSelector_def split: option.splits obj.splits)
  with assms have "a \<noteq> n" by auto
  with assms show ?thesis by (simp add: invoke_result [OF l] lookup_update_other)
qed

lemma appends_keeps_Comb:
  "lookup (heap s) n = Some (Comb c) \<Longrightarrow> lookup (heap (appends calls s)) n = Some (Comb c)"
proof (induction calls arbitrary: s)
  case Nil
  then show ?case by simp
next
  case (Cons call calls)
  obtain a k v where call: "call = (a, k, v)" by (cases call)
  from Cons.prems have "lookup (heap (snd (invoke k v a s))) n = Some (Comb c)"
    by (rule invoke_keeps_Comb)
  from Cons.IH [OF this] call show ?case by simp
qed

text \<open>
  Claim C10. The string of a node is computed once, by the constructor, from the
  operands as they are at that moment; append calls made afterwards, on the operands or
  on any other object, do not change what the node's \<open>stringify\<close> returns.
\<close>

theorem combine_string_fixed_at_construction:
  assumes "builder_combine l t r s = (Inr n, s1)"
  shows "stringify n s1 = Inr (operandStr (heap s ! l) @ '' '' @ t @ '' '' @ operandStr (heap s ! r))
       \<and> stringify n (appends calls s1) = stringify n s1"
proof -
  from assms have v: "l < length (heap s)" "r < length (heap s)"
    using newCombine_returns by (auto simp: builder_combine_def)
  let ?c = "\<lparr>selector1 = l, combinator = t, selector2 = r,
      combResStr = operandStr (heap s ! l) @ '' '' @ t @ '' '' @ operandStr (heap s ! r)\<rparr>"
  from assms newCombine_result [OF lookup_nth [OF v(1)] lookup_nth [OF v(2)], of t]
  have n: "n = length (heap s)" and s1: "s1 = s\<lparr>heap := heap s @ [Comb ?c]\<rparr>"
    by (simp_all add: builder_combine_def)
  have l1: "lookup (heap s1) n = Some (Comb ?c)" by (simp add: n s1 lookup_def)
  from appends_keeps_Comb [OF l1] have "lookup (heap (appends calls s1)) n = Some (Comb ?c)" .
  with l1 show ?thesis by (simp add: stringify_def)
qed

text \<open>
  After \<^verbatim>\<open>combine(div, '>', p)\<close> a class is appended to the left operand and an id
  to the right one: the left operand now serializes to \<open>div.c\<close>, the node still to
  \<open>div > p\<close>.
\<close>

theorem combine_string_fixed_at_construction_witness:
  "builder_combine 0 ''>'' 1 (snd (builder_element ''p'' (snd (builder_element ''div'' init))))
     = (Inr 2,
        \<lparr>validArr = [ElementK],
         heap = [Sel \<lparr>method_name = ElementK, val = ''div'', classResStr = ''div''\<rparr>,
                 Sel \<lparr>method_name = ElementK, val = ''p'', classResStr = ''p''\<rparr>,
                 Comb \<lparr>selector1 = 0, combinator = ''>'', selector2 = 1,
                       combResStr = ''div > p''\<rparr>]\<rparr>) \<and>
   stringify 0
     (appends [(0, ClassK, ''c''), (1, IdK, ''i'')]
        (snd (builder_combine 0 ''>'' 1
           (snd (builder_element ''p'' (snd (builder_element ''div'' init)))))))
     = Inr ''div.c'' \<and>
   stringify 2
     (appends [(0, ClassK, ''c''), (1, IdK, ''i'')]
        (snd (builder_combine 0 ''>'' 1
           (snd (builder_element ''p'' (snd (builder_element ''div'' init)))))))
     = Inr ''div > p''"
proof -
  let ?s = "snd (builder_element ''p'' (snd (builder_element ''div'' init)))"
  let ?s1 = "\<lparr>validArr = [ElementK],
         heap = [Sel \<lparr>method_name = ElementK, val = ''div'', classResStr = ''div''\<rparr>,
                 Sel \<lparr>method_name = ElementK, val = ''p'', classResStr = ''p''\<rparr>,
                 Comb \<lparr>selector1 = 0, combinator = ''>'', selector2 = 1,
                       combResStr = ''div > p''\<rparr>]\<rparr>"
  have h: "builder_combine 0 ''>'' 1 ?s = (Inr 2, ?s1)" by code_simp
  have a: "stringify 0 (appends [(0, ClassK, ''c''), (1, IdK, ''i'')] ?s1) = Inr ''div.c''"
    by code_simp
  have b: "stringify 2 ?s1 = Inr ''div > p''" by code_simp
  from combine_string_fixed_at_construction [OF h, of "[(0, ClassK, ''c''), (1, IdK, ''i'')]"] h a b
  show ?thesis by simp
qed

subsection \<open>Repeatable kinds\<close>

lemma count_list_snoc: "count_list (xs @ [k]) y = count_list xs y + (if k = y then 1 else 0)"
  by (induction xs) auto

lemma indexOf_snoc_present: "k \<in> set arr \<Longrightarrow> indexOf (arr @ [k]) X = indexOf arr X"
proof (cases "X \<in> set arr")
  case True
  then show ?thesis by (rule indexOf_append_in)
next
  case False
  assume "k \<in> set arr"
  with False have "X \<notin> set (arr @ [k])" by auto
  with False show ?thesis by (simp only: indexOf_absent [symmetric])
qed

lemma repeat_check:
  assumes "k \<in> {ClassK, AttrK, PseudoClassK}" and "k \<in> set arr"
  shows "validArrCheck (arr @ [k]) = validArrCheck arr"
proof -
  from assms(1) have "duplicated (arr @ [k]) = duplicated arr"
    by (auto simp: duplicated_def sampleOccur_def count_list_snoc)
  moreover from assms(2) have "misordered (arr @ [k]) = misordered arr"
    by (auto simp: misordered_def indexOf_snoc_present)
  ultimately show ?thesis by (simp add: validArrCheck_char)
qed

lemma renderAll_same_kind: "renderAll (map (Pair k) vs) = concat (map (render k) vs)"
  by (induction vs) simp_all

lemma chain_repeat:
  assumes "k \<in> {ClassK, AttrK, PseudoClassK}"
      and "lookup (heap s) this = Some (Sel x)"
      and "k \<in> set (validArr s)"
      and "validArrCheck (validArr s) = None"
  shows "chain (map (Pair k) vs) this s =
     (Inr this,
      s\<lparr>validArr := validArr s @ replicate (length vs) k,
        heap := (heap s)[this := Sel (x\<lparr>classResStr := classResStr x @ concat (map (render k) vs)\<rparr>)]\<rparr>)"
  using assms(2-4)
proof (induction vs arbitrary: s x)
  case Nil
  then have "(heap s)[this := Sel x] = heap s"
    by (auto simp: lookup_def list_update_same_conv split: if_splits)
  then show ?case by simp
next
  case (Cons v vs)
  let ?x1 = "x\<lparr>classResStr := classResStr x @ render k v\<rparr>"
  let ?s1 = "s\<lparr>validArr := validArr s @ [k], heap := (heap s)[this := Sel ?x1]\<rparr>"
  have ok: "validArrCheck (validArr s @ [k]) = None"
    using repeat_check [OF assms(1) Cons.prems(2)] Cons.prems(3) by simp
  have step: "invoke k v this s = (Inr this, ?s1)"
    by (simp add: invoke_result [OF Cons.prems(1)] ok)
  have l1: "lookup (heap ?s1) this = Some (Sel ?x1)"
    using Cons.prems(1) by (simp add: lookup_update_same)
  have k1: "k \<in> set (validArr ?s1)" by simp
  have c1: "validArrCheck (validArr ?s1) = None" using ok by simp
  from Cons.IH [OF l1 k1 c1] step show ?case
    by (simp add: replicate_append_same [symmetric] del: replicate_append_same)
qed

lemma respects_repeat:
  "k \<in> {ClassK, AttrK, PseudoClassK} \<Longrightarrow> respectsConstraints (replicate n k)"
  by (auto simp: respectsConstraints_def count_list_0_iff sorted_replicate)

text \<open>
  Claim C7. Class, attribute and pseudo-class are repeatable: a facade call of such a
  kind followed by any number of chained appends of the same kind raises nothing and
  serializes to the rendered pieces in call order; and once an append of such a kind
  has succeeded on a selector, any number of appends of the same kind that follow it
  directly succeed too, each adding its rendered piece.
\<close>

theorem repeatable_kinds_never_raise:
  assumes "k \<in> {ClassK, AttrK, PseudoClassK}"
  shows "(\<exists>s'. build (k, v) (map (Pair k) vs) s = (Inr (length (heap s)), s') \<and>
            stringify (length (heap s)) s' = Inr (concat (map (render k) (v # vs)))) \<and>
         (\<forall>this s1 s2. invoke k v this s1 = (Inr this, s2) \<longrightarrow>
            (\<exists>str s'. stringify this s2 = Inr str \<and>
               chain (map (Pair k) vs) this s2 = (Inr this, s') \<and>
               stringify this s' = Inr (str @ concat (map (render k) vs))))"
proof (intro conjI allI impI)
  have "map fst ((k, v) # map (Pair k) vs) = replicate (Suc (length vs)) k"
    by (simp add: comp_def map_replicate_const)
  with respects_repeat [OF assms, of "Suc (length vs)"]
  have "respectsConstraints (map fst ((k, v) # map (Pair k) vs))"
    by (simp only:)
  from build_valid [OF this, of s]
  show "\<exists>s'. build (k, v) (map (Pair k) vs) s = (Inr (length (heap s)), s') \<and>
            stringify (length (heap s)) s' = Inr (concat (map (render k) (v # vs)))"
    by (simp add: stringify_def lookup_def renderAll_same_kind)
next
  fix this s1 s2
  assume inv: "invoke k v this s1 = (Inr this, s2)"
  then have "isSelector s1 this" using invoke_not_selector [of s1 this k v] by auto
  then obtain x where l: "lookup (heap s1) this = Some (Sel x)"
    by (auto simp: isSelector_def split: option.splits obj.splits)
  let ?x2 = "x\<lparr>classResStr := classResStr x @ render k v\<rparr>"
  from inv have ok: "validArrCheck (validArr s1 @ [k]) = None"
    and s2: "s2 = s1\<lparr>validArr := validArr s1 @ [k], heap := (heap s1)[this := Sel ?x2]\<rparr>"
    by (auto simp: invoke_result [OF l] split: option.splits)
  have l2: "lookup (heap s2) this = Some (Sel ?x2)"
    using l by (simp add: s2 lookup_update_same)
  have k2: "k \<in> set (validArr s2)" by (simp add: s2)
  have c2: "validArrCheck (validArr s2) = None" using ok by (simp add: s2)
  have "stringify this s2 = Inr (classResStr ?x2)" using l2 by (rule stringify_Sel)
  moreover have "stringify this
       (s2\<lparr>validArr := validArr s2 @ replicate (length vs) k,
           heap := (heap s2)[this := Sel (?x2\<lparr>classResStr :=
                       classResStr ?x2 @ concat (map (render k) vs)\<rparr>)]\<rparr>)
     = Inr (classResStr ?x2 @ concat (map (render k) vs))"
    using l2 by (simp add: stringify_def lookup_update_same)
  ultimately show "\<exists>str s'. stringify this s2 = Inr str \<and>
               chain (map (Pair k) vs) this s2 = (Inr this, s') \<and>
               stringify this s' = Inr (str @ concat (map (render k) vs))"
    using chain_repeat [OF assms l2 k2 c2, of vs] by simp
qed

text \<open>\<^verbatim>\<open>class('a').class('b').class('c')\<close> serializes to \<open>.a.b.c\<close>.\<close>

theorem repeatable_kinds_never_raise_witness:
  "ClassK \<in> {ClassK, AttrK, PseudoClassK} \<and>
   (\<exists>s'. build (ClassK, ''a'') [(ClassK, ''b''), (ClassK, ''c'')] init = (Inr 0, s') \<and>
         stringify 0 s' = Inr ''.a.b.c'')"
proof -
  have h: "ClassK \<in> {ClassK, AttrK, PseudoClassK}" by simp
  from repeatable_kinds_never_raise [OF h, of "''a''" "[''b'', ''c'']" init] h
  show ?thesis by (simp add: init_def)
qed

subsection \<open>The order check\<close>

lemma validArrCheck_order_violation:
  assumes "Y \<in> set arr" and "rank X < rank Y"
      and "indexOf arr Y < lastIndexOf arr X"
      and "indexOf arr Y < indexOf arr X \<or> X \<in> set sampleOccur"
  shows "validArrCheck arr = Some (if duplicated arr then DuplicateSingleton else OutOfOrder)"
proof (cases "duplicated arr")
  case True
  then show ?thesis by (simp add: validArrCheck_char)
next
  case False
  have "indexOf arr Y < indexOf arr X"
  proof (rule ccontr)
    assume n: "\<not> indexOf arr Y < indexOf arr X"
    with assms(4) have occ: "X \<in> set sampleOccur" by simp
    from n assms(3) have "indexOf arr X \<noteq> lastIndexOf arr X" by simp
    then have "1 < count_list arr X" by (simp add: indexOf_eq_lastIndexOf)
    with occ have "duplicated arr" unfolding duplicated_def by blast
    with False show False by simp
  qed
  with assms(1,2) have "misordered arr" unfolding misordered_def by blast
  with False show ?thesis by (simp add: validArrCheck_char)
qed

text \<open>
  Claim C3, as amended. Let \<open>arr\<close> be the kinds of an uninterrupted chain, the
  kind just appended included, and let \<open>X\<close> and \<open>Y\<close> occur in it, \<open>X\<close> of
  strictly lower precedence than \<open>Y\<close>. If the last occurrence of \<open>X\<close> comes after
  the first occurrence of \<open>Y\<close>, and \<open>X\<close> is element or id or also the first
  occurrence of \<open>X\<close> comes after the first occurrence of \<open>Y\<close>, then the append
  raises: the duplicate error when element, id or pseudo-element occurs more than once
  in \<open>arr\<close>, the order error otherwise.
\<close>

theorem order_violation_raises:
  assumes "build p ps s = (Inr r, s1)"
      and "arr = map fst (p # ps) @ [k]"
      and "X \<in> set arr" and "Y \<in> set arr" and "rank X < rank Y"
      and "indexOf arr Y < lastIndexOf arr X"
      and "indexOf arr Y < indexOf arr X \<or> X \<in> set sampleOccur"
  shows "fst (invoke k v r s1) = Inl (if duplicated arr then DuplicateSingleton else OutOfOrder)"
proof -
  let ?x = "\<lparr>method_name = fst p, val = snd p, classResStr = renderAll (p # ps)\<rparr>"
  from build_success [OF assms(1)] have r: "r = length (heap s)"
    and va: "validArr s1 = map fst (p # ps)" and h: "heap s1 = heap s @ [Sel ?x]" by simp_all
  have l: "lookup (heap s1) r = Some (Sel ?x)" by (simp add: r h lookup_def)
  have "validArrCheck (validArr s1 @ [k])
      = Some (if duplicated arr then DuplicateSingleton else OutOfOrder)"
    using validArrCheck_order_violation [OF assms(4-7)] by (simp add: va assms(2))
  then show ?thesis by (simp add: invoke_result [OF l])
qed

text \<open>\<^verbatim>\<open>class('a').id('b')\<close> raises the order error.\<close>

theorem order_violation_raises_witness:
  "build (ClassK, ''a'') [] init
     = (Inr 0, \<lparr>validArr = [ClassK],
                heap = [Sel \<lparr>method_name = ClassK, val = ''a'', classResStr = ''.a''\<rparr>]\<rparr>) \<and>
   IdK \<in> set [ClassK, IdK] \<and> ClassK \<in> set [ClassK, IdK] \<and> rank IdK < rank ClassK \<and>
   indexOf [ClassK, IdK] ClassK < lastIndexOf [ClassK, IdK] IdK \<and>
   indexOf [ClassK, IdK] ClassK < indexOf [ClassK, IdK] IdK \<and>
   \<not> duplicated [ClassK, IdK] \<and>
   fst (invoke IdK ''b'' 0
      \<lparr>validArr = [ClassK],
       heap = [Sel \<lparr>method_name = ClassK, val = ''a'', classResStr = ''.a''\<rparr>]\<rparr>)
     = Inl OutOfOrder"
proof -
  let ?s1 = "\<lparr>validArr = [ClassK],
       heap = [Sel \<lparr>method_name = ClassK, val = ''a'', classResStr = ''.a''\<rparr>]\<rparr>"
  have h1: "build (ClassK, ''a'') [] init = (Inr 0, ?s1)" by code_simp
  have h2: "[ClassK, IdK] = map fst ((ClassK, ''a'') # []) @ [IdK]" by simp
  have h3: "IdK \<in> set [ClassK, IdK]" by simp
  have h4: "ClassK \<in> set [ClassK, IdK]" by simp
  have h5: "rank IdK < rank ClassK" by simp
  have h6: "indexOf [ClassK, IdK] ClassK < lastIndexOf [ClassK, IdK] IdK" by simp
  have h7: "indexOf [ClassK, IdK] ClassK < indexOf [ClassK, IdK] IdK" by simp
  have h8: "\<not> duplicated [ClassK, IdK]" by (simp add: duplicated_def sampleOccur_def)
  from h7 have h7': "indexOf [ClassK, IdK] ClassK < indexOf [ClassK, IdK] IdK
      \<or> IdK \<in> set sampleOccur" ..
  from order_violation_raises [OF h1 h2 h3 h4 h5 h6 h7', of "''b''"] h1 h3 h4 h5 h6 h7 h8
  show ?thesis by simp
qed

text \<open>
  Claim C3 as stated fails: in \<^verbatim>\<open>element('a').id('b').element('c')\<close> the last
  occurrence of element comes after the first occurrence of id, which has the higher
  precedence, and the third call raises the duplicate error, not the order error,
  because \<open>validArrCheck\<close> runs its singleton loop first.
\<close>

theorem duplicate_reported_before_order:
  "ElementK \<in> set [ElementK, IdK, ElementK] \<and> IdK \<in> set [ElementK, IdK, ElementK] \<and>
   rank ElementK < rank IdK \<and>
   indexOf [ElementK, IdK, ElementK] IdK < lastIndexOf [ElementK, IdK, ElementK] ElementK \<and>
   fst (build (ElementK, ''a'') [(IdK, ''b'')] init) = Inr 0 \<and>
   validArr (snd (build (ElementK, ''a'') [(IdK, ''b'')] init)) = [ElementK, IdK] \<and>
   fst (sel_element ''c'' 0 (snd (build (ElementK, ''a'') [(IdK, ''b'')] init)))
     = Inl DuplicateSingleton \<and>
   validArr (snd (sel_element ''c'' 0 (snd (build (ElementK, ''a'') [(IdK, ''b'')] init))))
     = [ElementK, IdK, ElementK] \<and>
   DuplicateSingleton \<noteq> OutOfOrder"
  by code_simp

text \<open>
  The order loop compares first occurrences only (\<^verbatim>\<open>arr.indexOf(item) >
  arr.indexOf(sliceEl)\<close>), so a repeatable kind that returns after a kind of higher
  precedence is not noticed: \<^verbatim>\<open>class('a').attr('b').class('c')\<close> raises nothing.
\<close>

lemma class_attr_class_accepted:
  "fst (build (ClassK, ''a'') [(AttrK, ''b''), (ClassK, ''c'')] init) = Inr 0 \<and>
   stringify 0 (snd (build (ClassK, ''a'') [(AttrK, ''b''), (ClassK, ''c'')] init))
     = Inr ''.a[b].c''"
  by code_simp

subsection \<open>The shared array\<close>

text \<open>
  Claim C2 says that the outcome of an append depends only on the pieces appended
  before to the same selector. The code departs from it, since every selector checks
  the one array \<open>validArr\<close>, which every constructor empties: on the selector
  \<^verbatim>\<open>a = builder.element('div')\<close> the call \<^verbatim>\<open>a.id('m')\<close> returns, but when
  \<^verbatim>\<open>builder.id('x')\<close> has been called in between, which leaves \<open>a\<close> as it was,
  the same call on \<open>a\<close> raises the duplicate error.
\<close>

theorem other_selector_changes_outcome:
  "fst (sel_id ''m'' 0 (snd (builder_element ''div'' init))) = Inr 0 \<and>
   fst (sel_id ''m'' 0 (snd (builder_id ''x'' (snd (builder_element ''div'' init)))))
     = Inl DuplicateSingleton \<and>
   stringify 0 (snd (builder_element ''div'' init)) = Inr ''div'' \<and>
   stringify 0 (snd (builder_id ''x'' (snd (builder_element ''div'' init)))) = Inr ''div''"
  by code_simp

text \<open>
  Claim C6 says that an append of element, id or pseudo-element to a selector that
  already holds a piece of that kind raises the duplicate error. The code departs from
  it, again through the shared array: after \<^verbatim>\<open>a = builder.id('a')\<close> and
  \<^verbatim>\<open>builder.element('e')\<close>, the call \<^verbatim>\<open>a.id('x')\<close> returns, and \<open>a\<close>
  serializes to \<open>#a#x\<close>.
\<close>

theorem second_id_accepted_after_other_selector:
  "fst (builder_id ''a'' init) = Inr 0 \<and>
   fst (builder_element ''e'' (snd (builder_id ''a'' init))) = Inr 1 \<and>
   fst (sel_id ''x'' 0 (snd (builder_element ''e'' (snd (builder_id ''a'' init))))) = Inr 0 \<and>
   stringify 0 (snd (sel_id ''x'' 0 (snd (builder_element ''e'' (snd (builder_id ''a'' init))))))
     = Inr ''#a#x''"
  by code_simp

lemma count_snoc_twice: "k \<in> set arr \<Longrightarrow> 1 < count_list (arr @ [k]) k"
  using count_list_0_iff [of arr k] by (simp add: count_list_snoc)

text \<open>In an uninterrupted chain the duplicate is raised.\<close>

lemma duplicate_singleton_in_chain:
  assumes "build p ps s = (Inr r, s1)"
      and "k \<in> set sampleOccur" and "k \<in> set (map fst (p # ps))"
  shows "fst (invoke k v r s1) = Inl DuplicateSingleton"
proof -
  let ?x = "\<lparr>method_name = fst p, val = snd p, classResStr = renderAll (p # ps)\<rparr>"
  from build_success [OF assms(1)] have r: "r = length (heap s)"
    and va: "validArr s1 = map fst (p # ps)" and h: "heap s1 = heap s @ [Sel ?x]" by simp_all
  have l: "lookup (heap s1) r = Some (Sel ?x)" by (simp add: r h lookup_def)
  from assms(3) have "1 < count_list (map fst (p # ps) @ [k]) k" by (rule count_snoc_twice)
  with assms(2) have "duplicated (validArr s1 @ [k])" unfolding duplicated_def va by blast
  then show ?thesis by (simp add: invoke_result [OF l] validArrCheck_char)
qed

end
